theory Spec2Isabelle
  imports Main "HOL-Library.Word" "HOL-Library.Sublist" "HOL-Library.List_Lexorder"
begin

section \<open>Data model\<close>

text \<open>
  The store of \<^verbatim>\<open>slasher/db/attester_slashings.go\<close> keeps attester slashing proofs in one
  bolt bucket. Keys and values are byte slices; the hash tree root of a slashing is a
  \<^verbatim>\<open>[32]byte\<close> array, so its length is part of the type.
\<close>

type_synonym byte = "8 word"
type_synonym bytes = "byte list"

typedef root32 = "{bs :: 8 word list. length bs = 32}"
  morphisms root_bytes to_root32
  by (rule exI [of _ "replicate 32 0"]) simp

text \<open>
  Go errors are values. \<^verbatim>\<open>errors.Wrap(err, msg)\<close> is \<open>Wrap err msg\<close>; an error coming out of
  a collaborator (hashing, protobuf, the key-value engine) is a \<open>Failure\<close>; a run-time
  panic (an index out of range) is \<open>Panic\<close>.
\<close>

datatype error = Failure string | Wrap error string | Panic string

text \<open>
  \<^verbatim>\<open>SlashingStatus\<close> and \<^verbatim>\<open>SlashingType\<close> are declared outside the file; the spec (section 3)
  gives each one byte of the key, and the code converts both with \<^verbatim>\<open>byte(...)\<close> and reads a
  status back with \<^verbatim>\<open>SlashingStatus(k[0])\<close>.
\<close>

type_synonym SlashingStatus = byte
type_synonym SlashingType = byte

text \<open>
  The collaborators of the store, taken as parameters. The slashing object
  (\<^verbatim>\<open>*ethpb.AttesterSlashing\<close>) is a type variable: the store only hashes and serialises it.
  \<^item> \<open>HashTreeRoot\<close> is \<^verbatim>\<open>ssz.HashTreeRoot\<close>, \<open>Marshal\<close> and \<open>Unmarshal\<close> are
    \<^verbatim>\<open>proto.Marshal\<close> and \<^verbatim>\<open>proto.Unmarshal\<close>;
  \<^item> \<open>Attestation\<close> is the value of the constant \<^verbatim>\<open>Attestation\<close> of type \<^verbatim>\<open>SlashingType\<close>;
  \<^item> \<open>DeleteFault k\<close> and \<open>PutFault k v\<close> say whether the engine's \<^verbatim>\<open>Bucket.Delete(k)\<close> and
    \<^verbatim>\<open>Bucket.Put(k, v)\<close> return an error: the code branches on both results.
\<close>

record 'e collaborators =
  HashTreeRoot :: "'e \<Rightarrow> error + root32"
  Marshal :: "'e \<Rightarrow> error + bytes"
  Unmarshal :: "bytes \<Rightarrow> error + 'e"
  Attestation :: SlashingType
  DeleteFault :: "bytes \<Rightarrow> error option"
  PutFault :: "bytes \<Rightarrow> bytes \<Rightarrow> error option"

section \<open>The bucket and its transactions\<close>

text \<open>
  The bucket is the list of its key/value pairs in the order a cursor walks them, which
  is the byte-wise lexicographic order of the keys (the order of \<^verbatim>\<open>bytes.Compare\<close>, here the
  order on lists of unsigned bytes).
\<close>

type_synonym bucket = "(bytes \<times> bytes) list"

definition HasPrefix :: "bytes \<Rightarrow> bytes \<Rightarrow> bool" where
  "HasPrefix s p = prefix p s"

definition HasSuffix :: "bytes \<Rightarrow> bytes \<Rightarrow> bool" where
  "HasSuffix s p = suffix p s"

text \<open>
  Modelled from the spec: the key codec \<^verbatim>\<open>encodeStatusType\<close> and \<^verbatim>\<open>encodeStatusTypeRoot\<close>
  (section 4.1), which the file calls but does not contain: the concatenation of the two
  single-byte fields, and of status, kind and the 32-byte digest.
\<close>

definition encodeStatusType :: "SlashingStatus \<Rightarrow> SlashingType \<Rightarrow> bytes" where
  "encodeStatusType status slashingType = [status, slashingType]"

definition encodeStatusTypeRoot :: "SlashingStatus \<Rightarrow> SlashingType \<Rightarrow> root32 \<Rightarrow> bytes" where
  "encodeStatusTypeRoot status slashingType root = [status, slashingType] @ root_bytes root"

text \<open>
  Modelled from the spec: the table of the transactional engine (section 6), with
  \<^verbatim>\<open>put\<close>, \<^verbatim>\<open>delete\<close> and a cursor with \<^verbatim>\<open>seek\<close> and forward iteration. \<open>put_sorted\<close>
  stores a pair at its place in key order and replaces the value of a key already there;
  deleting removes the key; \<open>Cursor_Seek\<close> moves to the first key not below the sought one.
\<close>

fun put_sorted :: "bytes \<Rightarrow> bytes \<Rightarrow> bucket \<Rightarrow> bucket" where
  "put_sorted k v [] = [(k, v)]"
| "put_sorted k v ((k', v') # b) =
     (if k < k' then (k, v) # (k', v') # b
      else if k = k' then (k, v) # b
      else (k', v') # put_sorted k v b)"

definition Bucket_Put :: "'e collaborators \<Rightarrow> bytes \<Rightarrow> bytes \<Rightarrow> bucket \<Rightarrow> error + bucket" where
  "Bucket_Put env k v b =
     (case PutFault env k v of Some err \<Rightarrow> Inl err | None \<Rightarrow> Inr (put_sorted k v b))"

definition Bucket_Delete :: "'e collaborators \<Rightarrow> bytes \<Rightarrow> bucket \<Rightarrow> error + bucket" where
  "Bucket_Delete env k b =
     (case DeleteFault env k of
        Some err \<Rightarrow> Inl err
      | None \<Rightarrow> Inr (filter (\<lambda>(k', v). k' \<noteq> k) b))"

definition Cursor_Seek :: "bytes \<Rightarrow> bucket \<Rightarrow> bucket" where
  "Cursor_Seek seek b = dropWhile (\<lambda>(k, v). k < seek) b"

text \<open>
  Modelled from the spec: \<^verbatim>\<open>view\<close> and \<^verbatim>\<open>update\<close> of the store (section 6), whose bodies are
  outside the file. \<open>view\<close> runs the function on the bucket and returns what it returns;
  \<open>update\<close> commits the writes of the function when it returns no error and rolls all of them
  back when it returns one.
\<close>

definition view :: "(bucket \<Rightarrow> 'a) \<Rightarrow> bucket \<Rightarrow> 'a" where
  "view fn b = fn b"

definition update :: "(bucket \<Rightarrow> error option \<times> bucket) \<Rightarrow> bucket \<Rightarrow> error option \<times> bucket" where
  "update fn b = (case fn b of (None, b') \<Rightarrow> (None, b') | (Some err, b') \<Rightarrow> (Some err, b))"

section \<open>The operations of the store\<close>

definition createAttesterSlashing :: "'e collaborators \<Rightarrow> bytes \<Rightarrow> error + 'e" where
  "createAttesterSlashing env enc =
     (case Unmarshal env enc of
        Inl err \<Rightarrow> Inl (Wrap err ''failed to unmarshal encoding'')
      | Inr protoSlashing \<Rightarrow> Inr protoSlashing)"

text \<open>
  \<^verbatim>\<open>AttesterSlashings\<close>: the cursor loop collects the values while the key keeps the prefix,
  then a second loop decodes them and returns \<^verbatim>\<open>nil\<close> with the error at the first value that
  fails to decode. A function returning a slice and an error returns the pair.
\<close>

fun collect_encoded :: "bytes \<Rightarrow> bucket \<Rightarrow> bytes list" where
  "collect_encoded pfx [] = []"
| "collect_encoded pfx ((k, v) # c) =
     (if HasPrefix k pfx then v # collect_encoded pfx c else [])"

fun decode_encoded :: "'e collaborators \<Rightarrow> bytes list \<Rightarrow> 'e list \<Rightarrow> error + 'e list" where
  "decode_encoded env [] attesterSlashings = Inr attesterSlashings"
| "decode_encoded env (enc # encoded) attesterSlashings =
     (case createAttesterSlashing env enc of
        Inl err \<Rightarrow> Inl err
      | Inr ps \<Rightarrow> decode_encoded env encoded (attesterSlashings @ [ps]))"

definition AttesterSlashings ::
  "'e collaborators \<Rightarrow> SlashingStatus \<Rightarrow> bucket \<Rightarrow> 'e list \<times> error option" where
  "AttesterSlashings env status b =
     (let (encoded, err) =
            view (\<lambda>tx. (collect_encoded (encodeStatusType status (Attestation env))
                          (Cursor_Seek (encodeStatusType status (Attestation env)) tx), None)) b
      in case decode_encoded env encoded [] of
           Inl err' \<Rightarrow> ([], Some err')
         | Inr attesterSlashings \<Rightarrow> (attesterSlashings, err))"

text \<open>
  \<^verbatim>\<open>AttestingSlashingsByStatus\<close> decodes inside the cursor loop; at a value that fails to
  decode the transaction function returns the error, and the caller gets the error with
  the slashings appended so far.
\<close>

fun scan_decode :: "'e collaborators \<Rightarrow> bytes \<Rightarrow> bucket \<Rightarrow> 'e list \<Rightarrow> 'e list \<times> error option" where
  "scan_decode env pfx [] attesterSlashings = (attesterSlashings, None)"
| "scan_decode env pfx ((k, v) # c) attesterSlashings =
     (if HasPrefix k pfx then
        (case createAttesterSlashing env v of
           Inl err \<Rightarrow> (attesterSlashings, Some err)
         | Inr ps \<Rightarrow> scan_decode env pfx c (attesterSlashings @ [ps]))
      else (attesterSlashings, None))"

definition AttestingSlashingsByStatus ::
  "'e collaborators \<Rightarrow> SlashingStatus \<Rightarrow> bucket \<Rightarrow> 'e list \<times> error option" where
  "AttestingSlashingsByStatus env status b =
     view (\<lambda>tx. scan_decode env (encodeStatusType status (Attestation env))
                  (Cursor_Seek (encodeStatusType status (Attestation env)) tx) []) b"

text \<open>
  \<^verbatim>\<open>HasAttesterSlashing\<close> walks the whole bucket from the first key and stops at the first
  key that ends with the root; the status is \<^verbatim>\<open>k[0]\<close>, which panics on an empty key.
  The result is (found, status, error), the zero values being \<open>False\<close> and \<open>0\<close>.
\<close>

fun has_scan :: "bytes \<Rightarrow> bucket \<Rightarrow> bool \<times> SlashingStatus \<times> error option" where
  "has_scan root [] = (False, 0, None)"
| "has_scan root ((k, v) # c) =
     (if HasSuffix k root then
        (case k of
           [] \<Rightarrow> (True, 0, Some (Panic ''index out of range''))
         | k0 # ks \<Rightarrow> (True, k0, None))
      else has_scan root c)"

definition HasAttesterSlashing ::
  "'e collaborators \<Rightarrow> 'e \<Rightarrow> bucket \<Rightarrow> bool \<times> SlashingStatus \<times> error option" where
  "HasAttesterSlashing env slashing b =
     (case HashTreeRoot env slashing of
        Inl err \<Rightarrow> (False, 0, Some (Wrap err ''failed to get hash root of attesterSlashing''))
      | Inr root \<Rightarrow> view (has_scan (root_bytes root)) b)"

text \<open>
  \<^verbatim>\<open>updateAttesterSlashingStatus\<close>: inside one update transaction, collect every key that
  ends with the root, delete them one by one (the first failing delete returns its error),
  marshal the slashing and put it under the key of the new status.
\<close>

fun collect_keys :: "bytes \<Rightarrow> bucket \<Rightarrow> bytes list" where
  "collect_keys root [] = []"
| "collect_keys root ((k, v) # c) =
     (if HasSuffix k root then k # collect_keys root c else collect_keys root c)"

fun delete_keys :: "'e collaborators \<Rightarrow> bytes list \<Rightarrow> bucket \<Rightarrow> error + bucket" where
  "delete_keys env [] b = Inr b"
| "delete_keys env (k # keysToDelete) b =
     (case Bucket_Delete env k b of
        Inl err \<Rightarrow> Inl err
      | Inr b' \<Rightarrow> delete_keys env keysToDelete b')"

definition updateAttesterSlashingStatus ::
  "'e collaborators \<Rightarrow> 'e \<Rightarrow> SlashingStatus \<Rightarrow> bucket \<Rightarrow> error option \<times> bucket" where
  "updateAttesterSlashingStatus env slashing status b =
     (case HashTreeRoot env slashing of
        Inl err \<Rightarrow> (Some (Wrap err ''failed to get hash root of attesterSlashing''), b)
      | Inr root \<Rightarrow>
          update (\<lambda>tx.
            case delete_keys env (collect_keys (root_bytes root) tx) tx of
              Inl err \<Rightarrow> (Some err, tx)
            | Inr tx1 \<Rightarrow>
                (case Marshal env slashing of
                   Inl err \<Rightarrow> (Some (Wrap err ''failed to marshal''), tx1)
                 | Inr enc \<Rightarrow>
                     (case Bucket_Put env
                             (encodeStatusTypeRoot status (Attestation env) root) enc tx1 of
                        Inl err \<Rightarrow> (Some err, tx1)
                      | Inr tx2 \<Rightarrow> (None, tx2)))) b)"

definition SaveAttesterSlashing ::
  "'e collaborators \<Rightarrow> SlashingStatus \<Rightarrow> 'e \<Rightarrow> bucket \<Rightarrow> error option \<times> bucket" where
  "SaveAttesterSlashing env status attesterSlashing b =
     (case HasAttesterSlashing env attesterSlashing b of
        (found, st, Some err) \<Rightarrow>
          (Some (Wrap err ''failed to check if attester slashing is already in db''), b)
      | (found, st, None) \<Rightarrow>
          if found \<and> st = status then (None, b)
          else updateAttesterSlashingStatus env attesterSlashing status b)"

text \<open>
  \<^verbatim>\<open>DeleteAttesterSlashingWithStatus\<close> deletes the one key of the status and the root. The
  test of \<^verbatim>\<open>err\<close> after the key is built reads the variable of the hash, which is \<^verbatim>\<open>nil\<close>
  there, so it never fires.
\<close>

definition DeleteAttesterSlashingWithStatus ::
  "'e collaborators \<Rightarrow> SlashingStatus \<Rightarrow> 'e \<Rightarrow> bucket \<Rightarrow> error option \<times> bucket" where
  "DeleteAttesterSlashingWithStatus env status attesterSlashing b =
     (case HashTreeRoot env attesterSlashing of
        Inl err \<Rightarrow> (Some (Wrap err ''failed to get hash root of attesterSlashing''), b)
      | Inr root \<Rightarrow>
          update (\<lambda>tx.
            case Bucket_Delete env (encodeStatusTypeRoot status (Attestation env) root) tx of
              Inl err \<Rightarrow>
                (Some (Wrap err ''failed to delete the slashing proof from slashing bucket''), tx)
            | Inr tx1 \<Rightarrow> (None, tx1)) b)"

text \<open>
  \<^verbatim>\<open>DeleteAttesterSlashing\<close> calls \<^verbatim>\<open>b.Delete(k)\<close> inside \<^verbatim>\<open>b.ForEach\<close> for every key that ends
  with the root. The result of \<^verbatim>\<open>b.Delete\<close> is not read and the function given to \<^verbatim>\<open>ForEach\<close>
  always returns \<^verbatim>\<open>nil\<close>, as does the transaction function. \<open>foreach_delete\<close> visits the
  pairs the bucket held when the iteration began and applies each delete to the bucket
  as it then is.
\<close>

fun foreach_delete :: "'e collaborators \<Rightarrow> bytes \<Rightarrow> bucket \<Rightarrow> bucket \<Rightarrow> bucket" where
  "foreach_delete env root [] b = b"
| "foreach_delete env root ((k, v) # c) b =
     (if HasSuffix k root then
        (case Bucket_Delete env k b of
           Inl err \<Rightarrow> foreach_delete env root c b
         | Inr b' \<Rightarrow> foreach_delete env root c b')
      else foreach_delete env root c b)"

definition DeleteAttesterSlashing ::
  "'e collaborators \<Rightarrow> 'e \<Rightarrow> bucket \<Rightarrow> error option \<times> bucket" where
  "DeleteAttesterSlashing env slashing b =
     (case HashTreeRoot env slashing of
        Inl err \<Rightarrow> (Some (Wrap err ''failed to get hash root of attester slashing''), b)
      | Inr root \<Rightarrow> update (\<lambda>tx. (None, foreach_delete env (root_bytes root) tx tx)) b)"

section \<open>Notions used by the properties\<close>

text \<open>A sequence of saves, each applied to the bucket the one before left.\<close>

fun saves :: "'e collaborators \<Rightarrow> (SlashingStatus \<times> 'e) list \<Rightarrow> bucket \<Rightarrow> bucket" where
  "saves env [] b = b"
| "saves env ((status, slashing) # calls) b =
     saves env calls (snd (SaveAttesterSlashing env status slashing b))"

text \<open>The records whose key ends with the given bytes.\<close>

definition copies :: "bytes \<Rightarrow> bucket \<Rightarrow> bucket" where
  "copies root b = filter (\<lambda>(k, v). HasSuffix k root) b"

text \<open>
  The bucket a successful status transition leaves: every record whose key ends with the
  root removed, and the encoding stored under the key of the new status.
\<close>

definition moved :: "'e collaborators \<Rightarrow> SlashingStatus \<Rightarrow> root32 \<Rightarrow> bytes \<Rightarrow> bucket \<Rightarrow> bucket" where
  "moved env status root enc b =
     put_sorted (encodeStatusTypeRoot status (Attestation env) root) enc
       (filter (\<lambda>(k, v). \<not> HasSuffix k (root_bytes root)) b)"

text \<open>The keys of a bucket stand in strictly ascending order.\<close>

definition ordered :: "bucket \<Rightarrow> bool" where
  "ordered b = sorted_wrt (<) (map fst b)"

text \<open>
  Every record of the attester kind holds the encoding of a slashing under the key made
  of a status, the kind and the root of that slashing.
\<close>

definition well_keyed :: "'e collaborators \<Rightarrow> bucket \<Rightarrow> bool" where
  "well_keyed env b =
     (\<forall>(k, v) \<in> set b. \<forall>status. HasPrefix k (encodeStatusType status (Attestation env)) \<longrightarrow>
        (\<exists>slashing root. Unmarshal env v = Inr slashing \<and> HashTreeRoot env slashing = Inr root \<and>
           k = encodeStatusTypeRoot status (Attestation env) root))"

text \<open>Decoding what \<open>Marshal\<close> produced gives the slashing back (spec, section 6).\<close>

definition round_trip :: "'e collaborators \<Rightarrow> bool" where
  "round_trip env = (\<forall>slashing enc. Marshal env slashing = Inr enc \<longrightarrow> Unmarshal env enc = Inr slashing)"

text \<open>
  A concrete set of collaborators for evaluating the operations: slashings are single
  bytes, the root of a slashing is the byte repeated 32 times, its encoding the byte
  itself, the attester kind is 1, and the engine's put and delete never fail. In the
  second one the engine's delete fails on every key.
\<close>

definition demo_root :: "byte \<Rightarrow> root32" where
  "demo_root x = to_root32 (replicate 32 x)"

definition demo_unmarshal :: "bytes \<Rightarrow> error + byte" where
  "demo_unmarshal enc = (case enc of [x] \<Rightarrow> Inr x | _ \<Rightarrow> Inl (Failure ''proto: bad encoding''))"

definition demo :: "byte collaborators" where
  "demo = \<lparr> HashTreeRoot = (\<lambda>x. Inr (demo_root x)), Marshal = (\<lambda>x. Inr [x]),
            Unmarshal = demo_unmarshal, Attestation = 1,
            DeleteFault = (\<lambda>k. None), PutFault = (\<lambda>k v. None) \<rparr>"

definition demo_faulty :: "byte collaborators" where
  "demo_faulty = demo \<lparr> DeleteFault := (\<lambda>k. Some (Failure ''delete failed'')) \<rparr>"


section \<open>Keys, scans and the status transition\<close>

text \<open>
  A key made by \<open>encodeStatusTypeRoot\<close> ends with exactly one 32-byte root and starts with its
  status and kind. The scan of \<^verbatim>\<open>HasAttesterSlashing\<close> never reaches the panic, and a status
  transition that returns no error leaves the bucket \<open>moved\<close>; \<open>Save_cases\<close> lists the four
  ways a save can end.
\<close>

lemma root_bytes_length: "length (root_bytes r) = 32"
  using root_bytes [of r] by simp

lemma HasSuffix_root_nonempty: "HasSuffix k (root_bytes r) \<Longrightarrow> k \<noteq> []"
  using root_bytes_length [of r] by (auto simp: HasSuffix_def)

lemma HasSuffix_key:
  "HasSuffix (encodeStatusTypeRoot s t r) (root_bytes r') \<longleftrightarrow> root_bytes r' = root_bytes r"
proof
  assume "HasSuffix (encodeStatusTypeRoot s t r) (root_bytes r')"
  then obtain zs where "[s, t] @ root_bytes r = zs @ root_bytes r'"
    by (auto simp: HasSuffix_def encodeStatusTypeRoot_def suffix_def)
  then show "root_bytes r' = root_bytes r"
    using root_bytes_length [of r] root_bytes_length [of r'] by (metis append_eq_append_conv)
next
  assume "root_bytes r' = root_bytes r"
  then show "HasSuffix (encodeStatusTypeRoot s t r) (root_bytes r')"
    by (simp add: HasSuffix_def encodeStatusTypeRoot_def suffix_def)
qed

lemma HasPrefix_key:
  "HasPrefix (encodeStatusTypeRoot s t r) (encodeStatusType s' t') \<longleftrightarrow> s = s' \<and> t = t'"
  by (auto simp: HasPrefix_def encodeStatusTypeRoot_def encodeStatusType_def)

lemma collect_keys_eq: "collect_keys root b = map fst (copies root b)"
  by (induction b) (auto simp: copies_def)

lemma has_scan_absent:
  "copies root b = [] \<Longrightarrow> has_scan root b = (False, 0, None)"
  by (induction b) (auto simp: copies_def split: if_splits)

lemma has_scan_present:
  "copies root b \<noteq> [] \<Longrightarrow> \<forall>(k, v) \<in> set (copies root b). k = k0 # ks \<Longrightarrow>
   has_scan root b = (True, k0, None)"
  by (induction b) (auto simp: copies_def split: if_splits)

lemma delete_keys_Inr:
  "delete_keys env ks b = Inr b' \<Longrightarrow> b' = filter (\<lambda>(k, v). k \<notin> set ks) b"
proof (induction ks arbitrary: b)
  case Nil
  then show ?case by simp
next
  case (Cons k ks)
  from Cons.prems obtain b1 where b1: "Bucket_Delete env k b = Inr b1" and r: "delete_keys env ks b1 = Inr b'"
    by (auto split: sum.splits)
  from b1 have "b1 = filter (\<lambda>(k', v). k' \<noteq> k) b"
    by (auto simp: Bucket_Delete_def split: option.splits)
  with Cons.IH [OF r] show ?case
    by (auto intro: filter_cong)
qed

lemma filter_collected:
  "filter (\<lambda>(k, v). k \<notin> set (collect_keys root b)) b = filter (\<lambda>(k, v). \<not> HasSuffix k root) b"
  by (rule filter_cong) (auto simp: collect_keys_eq copies_def image_iff)

lemma update_ok:
  assumes "updateAttesterSlashingStatus env slashing status b = (None, b')"
  shows "\<exists>root enc. HashTreeRoot env slashing = Inr root \<and> Marshal env slashing = Inr enc \<and>
           b' = moved env status root enc b"
  using assms
  by (auto simp: updateAttesterSlashingStatus_def update_def moved_def Bucket_Put_def
      filter_collected
      split: sum.splits option.splits prod.splits dest!: delete_keys_Inr)

lemma update_failed:
  "updateAttesterSlashingStatus env slashing status b = (Some err, b') \<Longrightarrow> b' = b"
  by (auto simp: updateAttesterSlashingStatus_def update_def split: sum.splits option.splits prod.splits)

lemma put_sorted_count:
  "k \<notin> fst ` set b \<Longrightarrow>
   length (filter P (put_sorted k v b)) = length (filter P b) + (if P (k, v) then 1 else 0)"
  by (induction b) (auto simp: image_iff)

lemma put_sorted_set_absent:
  "k \<notin> fst ` set b \<Longrightarrow> set (put_sorted k v b) = insert (k, v) (set b)"
  by (induction b) (auto simp: image_iff split: if_splits)

lemma key_not_in_rest:
  "encodeStatusTypeRoot s t root \<notin> fst ` set (filter (\<lambda>(k, v). \<not> HasSuffix k (root_bytes root)) b)"
  by (auto simp: HasSuffix_key)

lemma copies_rest:
  "copies root (filter (\<lambda>(k, v). \<not> HasSuffix k root) b) = []"
  by (induction b) (auto simp: copies_def)

lemma copies_moved_same:
  "copies (root_bytes root) (moved env status root enc b) =
     [(encodeStatusTypeRoot status (Attestation env) root, enc)]"
proof -
  let ?k = "encodeStatusTypeRoot status (Attestation env) root"
  let ?rest = "filter (\<lambda>(k, v). \<not> HasSuffix k (root_bytes root)) b"
  have len: "length (copies (root_bytes root) (moved env status root enc b)) = 1"
    using copies_rest [of "root_bytes root" b] unfolding copies_def moved_def
    by (simp add: put_sorted_count [OF key_not_in_rest] HasSuffix_key)
  have "set (copies (root_bytes root) (moved env status root enc b)) = {(?k, enc)}"
    unfolding copies_def moved_def
    by (auto simp: put_sorted_set_absent [OF key_not_in_rest] HasSuffix_key)
  with len show ?thesis
    by (cases "copies (root_bytes root) (moved env status root enc b)") auto
qed

lemma has_scan_moved:
  "has_scan (root_bytes root) (moved env status root enc b) = (True, status, None)"
  by (rule has_scan_present [where ks = "Attestation env # root_bytes root"])
     (simp_all add: copies_moved_same encodeStatusTypeRoot_def)

lemma has_scan_no_panic: "snd (snd (has_scan (root_bytes r) b)) = None"
  by (induction b) (auto split: list.splits dest: HasSuffix_root_nonempty)

lemma Save_cases:
  assumes "SaveAttesterSlashing env status slashing b = (res, b')"
  obtains
    (hash_failed) err where "HashTreeRoot env slashing = Inl err" "res \<noteq> None" "b' = b"
  | (unchanged) root where "HashTreeRoot env slashing = Inr root"
      "has_scan (root_bytes root) b = (True, status, None)" "res = None" "b' = b"
  | (failed) root err where "HashTreeRoot env slashing = Inr root"
      "has_scan (root_bytes root) b \<noteq> (True, status, None)" "res = Some err" "b' = b"
      "updateAttesterSlashingStatus env slashing status b = (Some err, b)"
  | (stored) root enc where "HashTreeRoot env slashing = Inr root"
      "has_scan (root_bytes root) b \<noteq> (True, status, None)"
      "Marshal env slashing = Inr enc" "res = None" "b' = moved env status root enc b"
proof (cases "HashTreeRoot env slashing")
  case (Inl err)
  with assms have "res \<noteq> None" "b' = b"
    by (auto simp: SaveAttesterSlashing_def HasAttesterSlashing_def)
  with Inl show ?thesis by (rule hash_failed)
next
  case (Inr root)
  obtain found st where hs: "has_scan (root_bytes root) b = (found, st, None)"
    using has_scan_no_panic [of root b] by (cases "has_scan (root_bytes root) b") auto
  show ?thesis
  proof (cases "found \<and> st = status")
    case True
    with assms Inr hs have "res = None" "b' = b"
      by (auto simp: SaveAttesterSlashing_def HasAttesterSlashing_def view_def)
    with Inr hs True show ?thesis by (auto intro: unchanged)
  next
    case False
    with assms Inr hs have u: "updateAttesterSlashingStatus env slashing status b = (res, b')"
      by (auto simp: SaveAttesterSlashing_def HasAttesterSlashing_def view_def)
    from False hs have ne: "has_scan (root_bytes root) b \<noteq> (True, status, None)" by auto
    show ?thesis
    proof (cases res)
      case None
      with u have "updateAttesterSlashingStatus env slashing status b = (None, b')" by simp
      from update_ok [OF this] obtain root' enc where "HashTreeRoot env slashing = Inr root'"
        "Marshal env slashing = Inr enc" "b' = moved env status root' enc b"
        by blast
      with Inr None ne show ?thesis by (auto intro: stored)
    next
      case (Some err)
      with u have "updateAttesterSlashingStatus env slashing status b = (Some err, b')" by simp
      from update_failed [OF this] have "b' = b" .
      with Inr Some ne u show ?thesis by (auto intro: failed)
    qed
  qed
qed

lemma Has_after_Save:
  assumes "SaveAttesterSlashing env status slashing b = (None, b')"
  shows "HasAttesterSlashing env slashing b' = (True, status, None)"
  using assms
  by (cases rule: Save_cases) (auto simp: HasAttesterSlashing_def view_def has_scan_moved)

lemma Save_twice:
  "snd (SaveAttesterSlashing env status slashing (snd (SaveAttesterSlashing env status slashing b)))
     = snd (SaveAttesterSlashing env status slashing b)"
proof -
  obtain res b' where s: "SaveAttesterSlashing env status slashing b = (res, b')"
    by (cases "SaveAttesterSlashing env status slashing b")
  show ?thesis
  proof (cases res)
    case None
    with s have "HasAttesterSlashing env slashing b' = (True, status, None)"
      by (simp add: Has_after_Save)
    then have "SaveAttesterSlashing env status slashing b' = (None, b')"
      by (simp add: SaveAttesterSlashing_def)
    with s show ?thesis by simp
  next
    case (Some err)
    with s have "b' = b"
      by (cases rule: Save_cases) auto
    with s show ?thesis by simp
  qed
qed

section \<open>The listing scans\<close>

text \<open>
  In a bucket in key order the keys with a given prefix follow the key the cursor seeks,
  one after the other, so the loop of the listings reads exactly the records with the
  prefix. The loop of \<^verbatim>\<open>AttestingSlashingsByStatus\<close> decodes what the two passes of
  \<^verbatim>\<open>AttesterSlashings\<close> collect and decode.
\<close>

lemma prefix_le: "prefix p (k :: 'a :: linorder list) \<Longrightarrow> p \<le> k"
proof (induction p arbitrary: k)
  case Nil
  then show ?case by simp
next
  case (Cons a p)
  then show ?case by (cases k) auto
qed

lemma not_prefix_above:
  "p \<le> k \<Longrightarrow> \<not> prefix p k \<Longrightarrow> k < k' \<Longrightarrow> \<not> prefix p (k' :: 'a :: linorder list)"
proof (induction p arbitrary: k k')
  case Nil
  then show ?case by simp
next
  case (Cons a p)
  then show ?case
    by (cases k; cases k') auto
qed

lemma collect_encoded_subset:
  "v \<in> set (collect_encoded pfx c) \<Longrightarrow> \<exists>k. (k, v) \<in> set c \<and> HasPrefix k pfx"
proof (induction c)
  case Nil
  then show ?case by simp
next
  case (Cons kv c)
  obtain k' v' where kv: "kv = (k', v')" by (cases kv)
  show ?case
  proof (cases "v \<in> set (collect_encoded pfx c) \<and> HasPrefix k' pfx")
    case True
    with Cons.IH show ?thesis by auto
  next
    case False
    with Cons.prems kv have "v = v'" "HasPrefix k' pfx" by (auto split: if_splits)
    with kv show ?thesis by auto
  qed
qed

lemma Cursor_Seek_subset: "set (Cursor_Seek seek b) \<subseteq> set b"
  by (auto simp: Cursor_Seek_def dest: set_dropWhileD)

lemma collect_encoded_above:
  "ordered b \<Longrightarrow> \<forall>k \<in> fst ` set b. pfx \<le> k \<Longrightarrow>
   collect_encoded pfx b = map snd (filter (\<lambda>(k, v). HasPrefix k pfx) b)"
proof (induction b)
  case Nil
  then show ?case by simp
next
  case (Cons kv b)
  obtain k v where kv: "kv = (k, v)" by (cases kv)
  from Cons.prems kv have ord: "ordered b" and above: "\<forall>k' \<in> fst ` set b. k < k'" and le: "pfx \<le> k"
    by (auto simp: ordered_def)
  from Cons.prems have rest: "\<forall>k \<in> fst ` set b. pfx \<le> k" by simp
  show ?case
  proof (cases "HasPrefix k pfx")
    case True
    with Cons.IH [OF ord rest] kv show ?thesis by simp
  next
    case False
    then have "\<forall>k' \<in> fst ` set b. \<not> HasPrefix k' pfx"
      using above le not_prefix_above [of pfx k] by (auto simp: HasPrefix_def)
    then have "filter (\<lambda>(k, v). HasPrefix k pfx) b = []"
      by (auto simp: filter_empty_conv)
    with False kv show ?thesis by simp
  qed
qed

lemma collect_encoded_Seek:
  "ordered b \<Longrightarrow>
   collect_encoded pfx (Cursor_Seek pfx b) = map snd (filter (\<lambda>(k, v). HasPrefix k pfx) b)"
proof (induction b)
  case Nil
  then show ?case by (simp add: Cursor_Seek_def)
next
  case (Cons kv b)
  obtain k v where kv: "kv = (k, v)" by (cases kv)
  from Cons.prems kv have ord: "ordered b" and above: "\<forall>k' \<in> fst ` set b. k < k'"
    by (auto simp: ordered_def)
  show ?case
  proof (cases "k < pfx")
    case True
    then have "\<not> HasPrefix k pfx"
      using prefix_le [of pfx k] by (auto simp: HasPrefix_def)
    with True Cons.IH [OF ord] kv show ?thesis by (simp add: Cursor_Seek_def)
  next
    case False
    then have "\<forall>k' \<in> fst ` set (kv # b). pfx \<le> k'"
      using above kv by fastforce
    from collect_encoded_above [OF Cons.prems this] False kv show ?thesis
      by (simp add: Cursor_Seek_def)
  qed
qed

lemma decode_encoded_Inr:
  "decode_encoded env encoded acc = Inr l \<Longrightarrow>
   map Inr l = map Inr acc @ map (Unmarshal env) encoded"
  by (induction encoded arbitrary: acc)
     (auto simp: createAttesterSlashing_def split: sum.splits)

lemma decode_encoded_good:
  "\<forall>enc \<in> set encoded. \<exists>ps. Unmarshal env enc = Inr ps \<Longrightarrow>
   \<exists>l. decode_encoded env encoded acc = Inr l"
  by (induction encoded arbitrary: acc)
     (auto simp: createAttesterSlashing_def split: sum.splits)

lemma decode_encoded_bad:
  "enc \<in> set encoded \<Longrightarrow> Unmarshal env enc = Inl err \<Longrightarrow>
   \<exists>err'. decode_encoded env encoded acc = Inl err'"
  by (induction encoded arbitrary: acc)
     (auto simp: createAttesterSlashing_def split: sum.splits)

lemma scan_decode_Inr:
  "decode_encoded env (collect_encoded pfx c) acc = Inr l \<Longrightarrow> scan_decode env pfx c acc = (l, None)"
  by (induction c arbitrary: acc) (auto split: sum.splits)

lemma scan_decode_Inl:
  "decode_encoded env (collect_encoded pfx c) acc = Inl err \<Longrightarrow>
   snd (scan_decode env pfx c acc) = Some err"
  by (induction c arbitrary: acc) (auto split: sum.splits if_splits)

lemma AttesterSlashings_unfold:
  "AttesterSlashings env status b =
     (case decode_encoded env
             (collect_encoded (encodeStatusType status (Attestation env))
                (Cursor_Seek (encodeStatusType status (Attestation env)) b)) [] of
        Inl err \<Rightarrow> ([], Some err) | Inr l \<Rightarrow> (l, None))"
  by (simp add: AttesterSlashings_def view_def)

lemma AttesterSlashings_member:
  assumes "slashing \<in> set (fst (AttesterSlashings env status b))"
  shows "\<exists>k v. (k, v) \<in> set b \<and> HasPrefix k (encodeStatusType status (Attestation env)) \<and>
           Unmarshal env v = Inr slashing"
proof -
  let ?pfx = "encodeStatusType status (Attestation env)"
  let ?encoded = "collect_encoded ?pfx (Cursor_Seek ?pfx b)"
  from assms obtain l where l: "decode_encoded env ?encoded [] = Inr l" and "slashing \<in> set l"
    by (auto simp: AttesterSlashings_unfold split: sum.splits)
  then have "Inr slashing \<in> set (map Inr l :: (error + 'a) list)" by simp
  with decode_encoded_Inr [OF l] obtain v where "v \<in> set ?encoded" "Unmarshal env v = Inr slashing"
    by auto
  with collect_encoded_subset [of v ?pfx] Cursor_Seek_subset [of ?pfx b] show ?thesis
    by blast
qed

section \<open>Deleting\<close>

text \<open>
  What \<^verbatim>\<open>ForEach\<close> with the delete inside does: nothing when no key ends with the root, and
  the removal of every such key when the engine's delete does not fail.
\<close>

lemma foreach_delete_untouched:
  "\<forall>(k, v) \<in> set c. \<not> HasSuffix k root \<Longrightarrow> foreach_delete env root c b = b"
  by (induction c arbitrary: b) auto

lemma foreach_delete_reliable:
  "\<forall>k. DeleteFault env k = None \<Longrightarrow>
   foreach_delete env root c b = filter (\<lambda>(k, v). k \<notin> set (collect_keys root c)) b"
proof (induction c arbitrary: b)
  case Nil
  then show ?case by simp
next
  case (Cons kv c)
  obtain k v where kv: "kv = (k, v)" by (cases kv)
  show ?case
  proof (cases "HasSuffix k root")
    case True
    with Cons.prems kv have "foreach_delete env root (kv # c) b =
        foreach_delete env root c (filter (\<lambda>(k', v). k' \<noteq> k) b)"
      by (simp add: Bucket_Delete_def)
    also have "\<dots> = filter (\<lambda>(k, v). k \<notin> set (collect_keys root c)) (filter (\<lambda>(k', v). k' \<noteq> k) b)"
      by (rule Cons.IH [OF Cons.prems])
    also have "\<dots> = filter (\<lambda>(k', v). k' \<notin> set (collect_keys root (kv # c))) b"
      using True kv by (auto intro: filter_cong)
    finally show ?thesis .
  next
    case False
    with Cons.IH [OF Cons.prems] kv show ?thesis by simp
  qed
qed

lemma DeleteAttesterSlashing_reliable:
  assumes "\<forall>k. DeleteFault env k = None" and "HashTreeRoot env slashing = Inr root"
  shows "DeleteAttesterSlashing env slashing b =
           (None, filter (\<lambda>(k, v). \<not> HasSuffix k (root_bytes root)) b)"
  using assms
  by (simp add: DeleteAttesterSlashing_def update_def foreach_delete_reliable filter_collected)

section \<open>What the operations preserve\<close>

text \<open>
  Saves keep the bucket in key order, keep every attester record under the key of its own
  slashing, and keep at most one record per root; every bucket built by saves from the
  empty one has these properties. With an engine whose delete does not fail, a save
  followed by \<^verbatim>\<open>DeleteAttesterSlashing\<close> leaves no copy of the slashing
  (\<open>removal_with_reliable_delete\<close>).
\<close>

lemma set_moved:
  "set (moved env status root enc b) =
     insert (encodeStatusTypeRoot status (Attestation env) root, enc)
       {(k, v) \<in> set b. \<not> HasSuffix k (root_bytes root)}"
  unfolding moved_def by (auto simp: put_sorted_set_absent [OF key_not_in_rest])

lemma well_keyed_moved:
  assumes "round_trip env" and "HashTreeRoot env slashing = Inr root"
    and "Marshal env slashing = Inr enc" and "well_keyed env b"
  shows "well_keyed env (moved env status root enc b)"
proof -
  have new: "\<exists>slashing' root'. Unmarshal env enc = Inr slashing' \<and>
        HashTreeRoot env slashing' = Inr root' \<and>
        encodeStatusTypeRoot status (Attestation env) root =
          encodeStatusTypeRoot status' (Attestation env) root'"
    if "HasPrefix (encodeStatusTypeRoot status (Attestation env) root)
          (encodeStatusType status' (Attestation env))" for status'
    using that assms(1-3) by (auto simp: HasPrefix_key round_trip_def)
  show ?thesis
    unfolding well_keyed_def set_moved
  proof (intro ballI, clarify)
    fix k v status'
    assume mem: "(k, v) \<in> insert (encodeStatusTypeRoot status (Attestation env) root, enc)
                    {(k, v) \<in> set b. \<not> HasSuffix k (root_bytes root)}"
      and pfx: "HasPrefix k (encodeStatusType status' (Attestation env))"
    show "\<exists>slashing' root'. Unmarshal env v = Inr slashing' \<and>
            HashTreeRoot env slashing' = Inr root' \<and>
            k = encodeStatusTypeRoot status' (Attestation env) root'"
    proof (cases "(k, v) = (encodeStatusTypeRoot status (Attestation env) root, enc)")
      case True
      with new [of status'] pfx show ?thesis by simp
    next
      case False
      with mem have "(k, v) \<in> set b" by auto
      with assms(4) pfx show ?thesis unfolding well_keyed_def by blast
    qed
  qed
qed

lemma well_keyed_Save:
  assumes "round_trip env" and "well_keyed env b"
    and "SaveAttesterSlashing env status slashing b = (res, b')"
  shows "well_keyed env b'"
  using assms(3)
proof (cases rule: Save_cases)
  case (stored root enc)
  with well_keyed_moved [OF assms(1) stored(1) stored(3) assms(2)] show ?thesis by simp
qed (use assms(2) in simp_all)

lemma keys_put_sorted: "fst ` set (put_sorted k v b) = insert k (fst ` set b)"
proof (induction b)
  case Nil
  then show ?case by simp
next
  case (Cons kv b)
  obtain k' v' where kv: "kv = (k', v')" by (cases kv)
  with Cons.IH show ?case by (simp add: insert_commute)
qed

lemma ordered_put_sorted: "ordered b \<Longrightarrow> ordered (put_sorted k v b)"
proof (induction b)
  case Nil
  then show ?case by (simp add: ordered_def)
next
  case (Cons kv b)
  obtain k' v' where kv: "kv = (k', v')" by (cases kv)
  from Cons.prems kv have ord: "ordered b" and above: "\<forall>x \<in> fst ` set b. k' < x"
    by (auto simp: ordered_def)
  from Cons.IH [OF ord] have ih: "sorted_wrt (<) (map fst (put_sorted k v b))"
    by (simp add: ordered_def)
  show ?case
  proof (cases "k < k'")
    case True
    with Cons.prems kv above show ?thesis by (auto simp: ordered_def)
  next
    case False
    show ?thesis
    proof (cases "k = k'")
      case True
      with Cons.prems kv show ?thesis by (auto simp: ordered_def)
    next
      case ne: False
      with False have "k' < k" by simp
      with above have "\<forall>x \<in> fst ` set (put_sorted k v b). k' < x"
        by (simp add: keys_put_sorted)
      with ih False ne kv show ?thesis by (simp add: ordered_def)
    qed
  qed
qed

lemma ordered_filter: "ordered b \<Longrightarrow> ordered (filter P b)"
  by (induction b) (auto simp: ordered_def)

lemma ordered_moved: "ordered b \<Longrightarrow> ordered (moved env status root enc b)"
  by (simp add: moved_def ordered_put_sorted ordered_filter)

lemma ordered_Save:
  assumes "ordered b" and "SaveAttesterSlashing env status slashing b = (res, b')"
  shows "ordered b'"
  using assms(2) by (cases rule: Save_cases) (simp_all add: assms(1) ordered_moved)

lemma ordered_saves: "ordered b \<Longrightarrow> ordered (saves env calls b)"
proof (induction calls arbitrary: b)
  case Nil
  then show ?case by simp
next
  case (Cons call calls)
  obtain status slashing where call: "call = (status, slashing)" by (cases call)
  have "ordered (snd (SaveAttesterSlashing env status slashing b))"
    using ordered_Save [OF Cons.prems] by (cases "SaveAttesterSlashing env status slashing b") auto
  from Cons.IH [OF this] call show ?case by simp
qed

lemma well_keyed_saves: "round_trip env \<Longrightarrow> well_keyed env b \<Longrightarrow> well_keyed env (saves env calls b)"
proof (induction calls arbitrary: b)
  case Nil
  then show ?case by simp
next
  case (Cons call calls)
  obtain status slashing where call: "call = (status, slashing)" by (cases call)
  have "well_keyed env (snd (SaveAttesterSlashing env status slashing b))"
    using well_keyed_Save [OF Cons.prems]
    by (cases "SaveAttesterSlashing env status slashing b") auto
  from Cons.IH [OF Cons.prems(1) this] call show ?case by simp
qed

lemma saves_from_empty:
  "ordered (saves env calls [])" "round_trip env \<Longrightarrow> well_keyed env (saves env calls [])"
proof -
  show "ordered (saves env calls [])"
    by (rule ordered_saves) (simp add: ordered_def)
  show "well_keyed env (saves env calls [])" if "round_trip env"
    by (rule well_keyed_saves [OF that]) (simp add: well_keyed_def)
qed

lemma count_list_decoded:
  "map Inr l = map f vs \<Longrightarrow> count_list l x = length (filter (\<lambda>v. f v = Inr x) vs)"
proof (induction l arbitrary: vs)
  case Nil
  then show ?case by simp
next
  case (Cons a l)
  then obtain v vs' where vs: "vs = v # vs'" "f v = Inr a" "map Inr l = map f vs'"
    by (cases vs) auto
  with Cons.IH [OF vs(3)] show ?case by auto
qed

lemma AttesterSlashings_ordered:
  assumes "ordered b" and "well_keyed env b"
  shows "\<exists>l. AttesterSlashings env status b = (l, None) \<and>
           (\<forall>x. count_list l x =
              length (filter (\<lambda>(k, v). HasPrefix k (encodeStatusType status (Attestation env)) \<and>
                                   Unmarshal env v = Inr x) b))"
proof -
  let ?pfx = "encodeStatusType status (Attestation env)"
  let ?encoded = "map snd (filter (\<lambda>(k, v). HasPrefix k ?pfx) b)"
  have enc: "collect_encoded ?pfx (Cursor_Seek ?pfx b) = ?encoded"
    by (rule collect_encoded_Seek [OF assms(1)])
  have "\<forall>enc \<in> set ?encoded. \<exists>ps. Unmarshal env enc = Inr ps"
    using assms(2) unfolding well_keyed_def by fastforce
  from decode_encoded_good [OF this] obtain l where l: "decode_encoded env ?encoded [] = Inr l"
    by blast
  have res: "AttesterSlashings env status b = (l, None)"
    by (simp add: AttesterSlashings_unfold enc l)
  from decode_encoded_Inr [OF l] have "map Inr l = map (Unmarshal env) ?encoded" by simp
  from count_list_decoded [OF this]
  have "count_list l x = length (filter (\<lambda>v. Unmarshal env v = Inr x) ?encoded)" for x .
  moreover have "length (filter (\<lambda>v. Unmarshal env v = Inr x) ?encoded) =
      length (filter (\<lambda>(k, v). HasPrefix k ?pfx \<and> Unmarshal env v = Inr x) b)" for x
    by (induction b) auto
  ultimately show ?thesis using res by simp
qed

lemma stored_copy_has_suffix:
  assumes "well_keyed env b" and "(k, v) \<in> set b"
    and "HasPrefix k (encodeStatusType status (Attestation env))"
    and "Unmarshal env v = Inr slashing" and "HashTreeRoot env slashing = Inr root"
  shows "HasSuffix k (root_bytes root)"
proof -
  from assms(1-3) obtain slashing' root' where "Unmarshal env v = Inr slashing'"
    "HashTreeRoot env slashing' = Inr root'" "k = encodeStatusTypeRoot status (Attestation env) root'"
    unfolding well_keyed_def by blast
  with assms(4,5) show ?thesis by (simp add: HasSuffix_key)
qed

lemma count_in_moved:
  assumes "well_keyed env b" and "round_trip env"
    and "HashTreeRoot env slashing = Inr root" and "Marshal env slashing = Inr enc"
  shows "length (filter (\<lambda>(k, v). HasPrefix k (encodeStatusType status' (Attestation env)) \<and>
                                   Unmarshal env v = Inr slashing)
           (moved env status root enc b)) = (if status' = status then 1 else 0)"
proof -
  let ?Q = "\<lambda>(k, v). HasPrefix k (encodeStatusType status' (Attestation env)) \<and>
                      Unmarshal env v = Inr slashing"
  let ?rest = "filter (\<lambda>(k, v). \<not> HasSuffix k (root_bytes root)) b"
  have "\<not> ?Q kv" if "kv \<in> set ?rest" for kv
  proof
    obtain k v where kv: "kv = (k, v)" by (cases kv)
    assume "?Q kv"
    with kv have q: "HasPrefix k (encodeStatusType status' (Attestation env))"
      "Unmarshal env v = Inr slashing" by simp_all
    from that kv have mem: "(k, v) \<in> set b" and no: "\<not> HasSuffix k (root_bytes root)"
      by simp_all
    from stored_copy_has_suffix [OF assms(1) mem q assms(3)] no show False by simp
  qed
  then have "filter ?Q ?rest = []"
    unfolding filter_empty_conv by blast
  moreover have "?Q (encodeStatusTypeRoot status (Attestation env) root, enc) \<longleftrightarrow> status' = status"
    using assms(2,4) by (auto simp: HasPrefix_key round_trip_def)
  ultimately show ?thesis
    unfolding moved_def by (simp add: put_sorted_count [OF key_not_in_rest])
qed

lemma removal_with_reliable_delete:
  assumes "well_keyed env b" and "\<forall>k. DeleteFault env k = None"
    and "SaveAttesterSlashing env status slashing b = (res1, b1)"
    and "DeleteAttesterSlashing env slashing b1 = (res2, b2)"
  shows "fst (HasAttesterSlashing env slashing b2) = False \<and>
         slashing \<notin> set (fst (AttesterSlashings env status b2))"
proof (cases "HashTreeRoot env slashing")
  case (Inl err)
  have "slashing \<notin> set (fst (AttesterSlashings env status b2))"
  proof
    assume "slashing \<in> set (fst (AttesterSlashings env status b2))"
    from AttesterSlashings_member [OF this] obtain k v where "(k, v) \<in> set b2"
      "HasPrefix k (encodeStatusType status (Attestation env))" "Unmarshal env v = Inr slashing"
      by blast
    moreover from assms(3,4) Inl have "b2 = b"
      by (auto simp: DeleteAttesterSlashing_def elim: Save_cases)
    ultimately show False using assms(1) Inl unfolding well_keyed_def by fastforce
  qed
  with Inl show ?thesis by (simp add: HasAttesterSlashing_def)
next
  case (Inr root)
  let ?gone = "\<lambda>(k, v). \<not> HasSuffix k (root_bytes root)"
  from assms(4) have b2: "b2 = filter ?gone b1"
    by (simp add: DeleteAttesterSlashing_reliable [OF assms(2) Inr])
  have sub: "set b2 \<subseteq> set b"
    using assms(3)
  proof (cases rule: Save_cases)
    case (stored root' enc)
    with Inr b2 show ?thesis by (auto simp: set_moved HasSuffix_key)
  qed (use b2 in auto)
  have "copies (root_bytes root) b2 = []"
    unfolding b2 by (rule copies_rest)
  then have has: "fst (HasAttesterSlashing env slashing b2) = False"
    by (simp add: HasAttesterSlashing_def view_def Inr has_scan_absent)
  have "slashing \<notin> set (fst (AttesterSlashings env status b2))"
  proof
    assume "slashing \<in> set (fst (AttesterSlashings env status b2))"
    from AttesterSlashings_member [OF this] obtain k v where kv: "(k, v) \<in> set b2"
      "HasPrefix k (encodeStatusType status (Attestation env))" "Unmarshal env v = Inr slashing"
      by blast
    with sub have "(k, v) \<in> set b" by blast
    from stored_copy_has_suffix [OF assms(1) this kv(2,3) Inr] kv(1) show False
      unfolding b2 by simp
  qed
  with has show ?thesis by simp
qed

lemma HasSuffix_key_length:
  "length r = 32 \<Longrightarrow> HasSuffix (encodeStatusTypeRoot s t root) r \<longleftrightarrow> r = root_bytes root"
proof
  assume len: "length r = 32" and "HasSuffix (encodeStatusTypeRoot s t root) r"
  then obtain zs where "[s, t] @ root_bytes root = zs @ r"
    by (auto simp: HasSuffix_def encodeStatusTypeRoot_def suffix_def)
  with len show "r = root_bytes root"
    using root_bytes_length [of root] by (metis append_eq_append_conv)
next
  assume "r = root_bytes root"
  then show "HasSuffix (encodeStatusTypeRoot s t root) r"
    by (simp add: HasSuffix_def encodeStatusTypeRoot_def suffix_def)
qed

lemma copies_moved_length:
  assumes "length r = 32" and "length (copies r b) \<le> 1"
  shows "length (copies r (moved env status root enc b)) \<le> 1"
proof (cases "r = root_bytes root")
  case True
  then show ?thesis by (simp add: copies_moved_same)
next
  case False
  let ?rest = "filter (\<lambda>(k, v). \<not> HasSuffix k (root_bytes root)) b"
  have "length (copies r (moved env status root enc b)) = length (copies r ?rest)"
    unfolding copies_def moved_def
    by (simp add: put_sorted_count [OF key_not_in_rest] HasSuffix_key_length [OF assms(1)] False)
  also have "copies r ?rest = filter (\<lambda>(k, v). \<not> HasSuffix k (root_bytes root)) (copies r b)"
    unfolding copies_def by (induction b) auto
  also have "length \<dots> \<le> length (copies r b)" by (rule length_filter_le)
  finally show ?thesis using assms(2) by simp
qed

lemma Save_single_copy:
  assumes "\<forall>r. length r = 32 \<longrightarrow> length (copies r b) \<le> 1"
    and "SaveAttesterSlashing env status slashing b = (res, b')"
  shows "\<forall>r. length r = 32 \<longrightarrow> length (copies r b') \<le> 1"
  using assms(2)
proof (cases rule: Save_cases)
  case (stored root enc)
  show ?thesis
  proof (intro allI impI)
    fix r :: bytes
    assume len: "length r = 32"
    with assms(1) have "length (copies r b) \<le> 1" by blast
    from copies_moved_length [OF len this] stored show "length (copies r b') \<le> 1" by simp
  qed
qed (use assms(1) in simp_all)

lemma saves_single_copy:
  "\<forall>r. length r = 32 \<longrightarrow> length (copies r b) \<le> 1 \<Longrightarrow>
   \<forall>r. length r = 32 \<longrightarrow> length (copies r (saves env calls b)) \<le> 1"
proof (induction calls arbitrary: b)
  case Nil
  then show ?case by simp
next
  case (Cons call calls)
  obtain status slashing where call: "call = (status, slashing)" by (cases call)
  obtain res b' where s: "SaveAttesterSlashing env status slashing b = (res, b')"
    by (cases "SaveAttesterSlashing env status slashing b")
  from Cons.IH [OF Save_single_copy [OF Cons.prems s]] call s show ?case by simp
qed

lemma Save_routes:
  assumes "SaveAttesterSlashing env status slashing b = (None, b')"
  shows "HasAttesterSlashing env slashing b = (True, status, None) \<and> b' = b \<or>
         HasAttesterSlashing env slashing b \<noteq> (True, status, None) \<and>
         updateAttesterSlashingStatus env slashing status b = (None, b') \<and>
         (\<exists>root enc. HashTreeRoot env slashing = Inr root \<and> Marshal env slashing = Inr enc \<and>
            b' = put_sorted (encodeStatusTypeRoot status (Attestation env) root) enc
                   (filter (\<lambda>(k, v). \<not> HasSuffix k (root_bytes root)) b) \<and>
            copies (root_bytes root) b' = [(encodeStatusTypeRoot status (Attestation env) root, enc)])"
proof (cases "HasAttesterSlashing env slashing b = (True, status, None)")
  case True
  with assms show ?thesis by (simp add: SaveAttesterSlashing_def)
next
  case False
  obtain found st err where has: "HasAttesterSlashing env slashing b = (found, st, err)"
    by (cases "HasAttesterSlashing env slashing b") auto
  with assms have "err = None"
    by (cases err) (auto simp: SaveAttesterSlashing_def)
  with has False assms have upd: "updateAttesterSlashingStatus env slashing status b = (None, b')"
    by (auto simp: SaveAttesterSlashing_def split: if_splits)
  from update_ok [OF upd] obtain root enc where re: "HashTreeRoot env slashing = Inr root"
    "Marshal env slashing = Inr enc" "b' = moved env status root enc b" by blast
  then have "copies (root_bytes root) b' = [(encodeStatusTypeRoot status (Attestation env) root, enc)]"
    by (simp add: copies_moved_same)
  with re upd False show ?thesis unfolding moved_def by blast
qed

section \<open>Evaluation on the concrete collaborators\<close>

text \<open>
  The operations evaluated on the concrete collaborators \<open>demo\<close> and \<open>demo_faulty\<close>.
\<close>

lemma replicate_less:
  "x < y \<Longrightarrow> 0 < n \<Longrightarrow> replicate n x < replicate n (y :: 'a :: linorder)"
  by (cases n) simp_all

lemma root_bytes_demo: "root_bytes (demo_root x) = replicate 32 x"
  by (simp add: demo_root_def to_root32_inverse)

lemma demo_root_distinct: "x \<noteq> y \<Longrightarrow> root_bytes (demo_root x) \<noteq> root_bytes (demo_root y)"
  by (simp add: root_bytes_demo)

lemma demo_simps:
  "HashTreeRoot demo = (\<lambda>x. Inr (demo_root x))" "Marshal demo = (\<lambda>x. Inr [x])"
  "Unmarshal demo = demo_unmarshal" "Attestation demo = 1"
  "DeleteFault demo = (\<lambda>k. None)" "PutFault demo = (\<lambda>k v. None)"
  by (simp_all add: demo_def)

lemma demo_faulty_simps:
  "HashTreeRoot demo_faulty = (\<lambda>x. Inr (demo_root x))" "Attestation demo_faulty = 1"
  "DeleteFault demo_faulty = (\<lambda>k. Some (Failure ''delete failed''))"
  "Marshal demo_faulty = (\<lambda>x. Inr [x])" "Unmarshal demo_faulty = demo_unmarshal"
  "PutFault demo_faulty = (\<lambda>k v. None)"
  by (simp_all add: demo_faulty_def demo_def)

lemma demo_key_less:
  "x < y \<Longrightarrow> encodeStatusTypeRoot s t (demo_root x) < encodeStatusTypeRoot s t (demo_root y)"
  by (simp add: encodeStatusTypeRoot_def root_bytes_demo replicate_less)

lemma demo_key_eq:
  "encodeStatusTypeRoot s t (demo_root x) = encodeStatusTypeRoot s' t' (demo_root y) \<longleftrightarrow>
     s = s' \<and> t = t' \<and> x = y"
  by (auto simp: encodeStatusTypeRoot_def root_bytes_demo)

lemma demo_key_suffix:
  "HasSuffix (encodeStatusTypeRoot s t (demo_root x)) (root_bytes (demo_root y)) \<longleftrightarrow> x = y"
  unfolding HasSuffix_key by (auto simp: root_bytes_demo)

lemma case_key:
  "(case encodeStatusTypeRoot s t r of [] \<Rightarrow> a | k0 # ks \<Rightarrow> f k0 ks) = f s (t # root_bytes r)"
  by (simp add: encodeStatusTypeRoot_def)

lemma round_trip_demo: "round_trip demo"
  by (simp add: round_trip_def demo_simps demo_unmarshal_def)

lemma well_keyed_demo_single: "well_keyed demo [(encodeStatusTypeRoot s 1 (demo_root x), [x])]"
  by (simp add: well_keyed_def demo_simps demo_unmarshal_def HasPrefix_key)

lemma ordered_single: "ordered [kv]"
  by (simp add: ordered_def)

lemma Save_demo_empty:
  "SaveAttesterSlashing demo s x [] = (None, [([s, 1] @ replicate 32 x, [x])])"
  by (simp add: SaveAttesterSlashing_def HasAttesterSlashing_def view_def
      updateAttesterSlashingStatus_def update_def Bucket_Put_def demo_simps
      encodeStatusTypeRoot_def root_bytes_demo)

lemma Save_demo_new:
  "SaveAttesterSlashing demo 0 5 [(encodeStatusTypeRoot 0 1 (demo_root 6), [6])] =
     (None, [(encodeStatusTypeRoot 0 1 (demo_root 5), [5]), (encodeStatusTypeRoot 0 1 (demo_root 6), [6])])"
  by (simp add: SaveAttesterSlashing_def HasAttesterSlashing_def view_def
      updateAttesterSlashingStatus_def update_def Bucket_Put_def demo_simps
      demo_key_suffix demo_key_less)

lemma Save_demo_change:
  "SaveAttesterSlashing demo 2 5
     [(encodeStatusTypeRoot 0 1 (demo_root 5), [5]), (encodeStatusTypeRoot 0 1 (demo_root 6), [6])] =
     (None, [(encodeStatusTypeRoot 0 1 (demo_root 6), [6]), (encodeStatusTypeRoot 2 1 (demo_root 5), [5])])"
proof -
  have lt: "encodeStatusTypeRoot 0 1 (demo_root 6) < encodeStatusTypeRoot 2 1 (demo_root 5)"
    by (simp add: encodeStatusTypeRoot_def)
  then show ?thesis
    by (simp add: SaveAttesterSlashing_def HasAttesterSlashing_def view_def case_key
      updateAttesterSlashingStatus_def update_def Bucket_Put_def Bucket_Delete_def demo_simps
      demo_key_suffix demo_key_eq)
qed

lemma List_demo:
  "AttesterSlashings demo 0
     [(encodeStatusTypeRoot 0 1 (demo_root 6), [6]), (encodeStatusTypeRoot 2 1 (demo_root 5), [5])] =
     ([6], None)"
  "AttesterSlashings demo 2
     [(encodeStatusTypeRoot 0 1 (demo_root 6), [6]), (encodeStatusTypeRoot 2 1 (demo_root 5), [5])] =
     ([5], None)"
  by (simp_all add: AttesterSlashings_unfold Cursor_Seek_def demo_simps HasPrefix_def
        createAttesterSlashing_def demo_unmarshal_def encodeStatusType_def encodeStatusTypeRoot_def)

section \<open>The properties of the store\<close>

text \<open>
  Claim C1. After any finite sequence of \<^verbatim>\<open>SaveAttesterSlashing\<close> calls on an empty
  bucket (any statuses, any slashings, in any order), the bucket holds at most one record
  whose key ends with a given 32-byte root, in particular with the root of any slashing.
  A save that returns no error either found the slashing stored with the same status and
  wrote nothing, or went through \<^verbatim>\<open>updateAttesterSlashingStatus\<close>, which removed every
  record whose key ends with the root and put exactly one record, under the key of the
  status, the attester kind and the root.
\<close>

theorem single_copy_per_root:
  "(\<forall>root. length (copies (root_bytes root) (saves env calls [])) \<le> 1) \<and>
   (HashTreeRoot env evidence = Inr digest \<longrightarrow>
      length (copies (root_bytes digest) (saves env calls [])) \<le> 1) \<and>
   ((\<forall>root. length (copies (root_bytes root) b0) \<le> 1) \<longrightarrow>
      (\<forall>root. length (copies (root_bytes root) (saves env calls b0)) \<le> 1)) \<and>
   (SaveAttesterSlashing env status slashing b = (None, b') \<longrightarrow>
      HasAttesterSlashing env slashing b = (True, status, None) \<and> b' = b \<or>
      HasAttesterSlashing env slashing b \<noteq> (True, status, None) \<and>
      updateAttesterSlashingStatus env slashing status b = (None, b') \<and>
      (\<exists>root enc. HashTreeRoot env slashing = Inr root \<and> Marshal env slashing = Inr enc \<and>
         b' = put_sorted (encodeStatusTypeRoot status (Attestation env) root) enc
                (filter (\<lambda>(k, v). \<not> HasSuffix k (root_bytes root)) b) \<and>
         copies (root_bytes root) b' = [(encodeStatusTypeRoot status (Attestation env) root, enc)]))"
proof -
  have "\<forall>r. length r = 32 \<longrightarrow> length (copies r ([] :: bucket)) \<le> 1"
    by (simp add: copies_def)
  from saves_single_copy [OF this, of env calls]
  have empty: "\<forall>root. length (copies (root_bytes root) (saves env calls [])) \<le> 1"
    by (simp add: root_bytes_length)
  have any: "\<forall>root. length (copies (root_bytes root) (saves env calls b0)) \<le> 1"
    if start: "\<forall>root. length (copies (root_bytes root) b0) \<le> 1"
  proof -
    have "\<forall>r. length r = 32 \<longrightarrow> length (copies r b0) \<le> 1"
    proof (intro allI impI)
      fix r :: bytes
      assume "length r = 32"
      then have "root_bytes (to_root32 r) = r" by (simp add: to_root32_inverse)
      with start [rule_format, of "to_root32 r"] show "length (copies r b0) \<le> 1" by simp
    qed
    from saves_single_copy [OF this, of env calls] show ?thesis
      by (simp add: root_bytes_length)
  qed
  from empty any Save_routes [of env status slashing b b'] show ?thesis by blast
qed

theorem single_copy_per_root_witness:
  "(\<forall>root. length (copies (root_bytes root) (saves demo [(0, 5), (2, 5), (2, 6)] [])) \<le> 1) \<and>
   HashTreeRoot demo 5 = Inr (demo_root 5) \<and>
   length (copies (root_bytes (demo_root 5)) (saves demo [(0, 5), (2, 5), (2, 6)] [])) \<le> 1 \<and>
   SaveAttesterSlashing demo 0 5 [(encodeStatusTypeRoot 0 1 (demo_root 6), [6])] =
     (None, [(encodeStatusTypeRoot 0 1 (demo_root 5), [5]), (encodeStatusTypeRoot 0 1 (demo_root 6), [6])]) \<and>
   updateAttesterSlashingStatus demo 5 0 [(encodeStatusTypeRoot 0 1 (demo_root 6), [6])] =
     (None, [(encodeStatusTypeRoot 0 1 (demo_root 5), [5]), (encodeStatusTypeRoot 0 1 (demo_root 6), [6])]) \<and>
   copies (root_bytes (demo_root 5))
     [(encodeStatusTypeRoot 0 1 (demo_root 5), [5]), (encodeStatusTypeRoot 0 1 (demo_root 6), [6])] =
     [(encodeStatusTypeRoot 0 1 (demo_root 5), [5])]"
proof -
  let ?b = "[(encodeStatusTypeRoot 0 1 (demo_root 6), [6 :: byte])]"
  let ?b' = "[(encodeStatusTypeRoot 0 1 (demo_root 5), [5 :: byte]), (encodeStatusTypeRoot 0 1 (demo_root 6), [6 :: byte])]"
  have h1: "HashTreeRoot demo 5 = Inr (demo_root 5)" by (simp add: demo_simps)
  have h2: "SaveAttesterSlashing demo 0 5 ?b = (None, ?b')" by (rule Save_demo_new)
  have h3: "HasAttesterSlashing demo 5 ?b = (False, 0, None)"
    by (simp add: HasAttesterSlashing_def view_def demo_simps demo_key_suffix)
  have h4: "Marshal demo 5 = Inr [5]" by (simp add: demo_simps)
  from single_copy_per_root [where env = demo and calls = "[(0, 5), (2, 5), (2, 6)]" and evidence = 5
      and digest = "demo_root 5" and status = 0 and slashing = 5 and b = ?b and b' = ?b'
      and ?b0.0 = "[]"]
    h1 h2 h3 h4
  show ?thesis by auto
qed

text \<open>
  Claim C2. For every status, every slashing and every bucket, saving the slashing with
  the status twice in a row leaves the bucket after the second call exactly as it was
  after the first: the second call finds the slashing stored with that status and writes
  nothing (and when the first call ended with an error, so that it wrote nothing, the
  second call repeats it).
\<close>

theorem SaveAttesterSlashing_idempotent:
  "snd (SaveAttesterSlashing env status slashing
          (snd (SaveAttesterSlashing env status slashing b)))
     = snd (SaveAttesterSlashing env status slashing b)"
  by (rule Save_twice)

text \<open>
  Claim C3. Let the bucket be in key order and hold, under every key of the attester
  kind, the encoding of the slashing whose root is in the key, and let decoding undo
  encoding. After a save of a slashing with one status and then a save of it with
  another status, both without error, \<^verbatim>\<open>AttesterSlashings\<close> of the first status returns a
  list without the slashing and \<^verbatim>\<open>AttesterSlashings\<close> of the second status returns a list
  with exactly one copy of it, both without error.
\<close>

theorem status_move:
  assumes "ordered b" and "well_keyed env b" and "round_trip env" and "status1 \<noteq> status2"
    and "SaveAttesterSlashing env status1 slashing b = (None, b1)"
    and "SaveAttesterSlashing env status2 slashing b1 = (None, b2)"
  shows "\<exists>l1 l2. AttesterSlashings env status1 b2 = (l1, None) \<and> slashing \<notin> set l1 \<and>
           AttesterSlashings env status2 b2 = (l2, None) \<and> count_list l2 slashing = 1"
proof -
  have ord1: "ordered b1" by (rule ordered_Save [OF assms(1,5)])
  have wk1: "well_keyed env b1" by (rule well_keyed_Save [OF assms(3,2,5)])
  have ord2: "ordered b2" by (rule ordered_Save [OF ord1 assms(6)])
  have wk2: "well_keyed env b2" by (rule well_keyed_Save [OF assms(3) wk1 assms(6)])
  have has1: "HasAttesterSlashing env slashing b1 = (True, status1, None)"
    by (rule Has_after_Save [OF assms(5)])
  from assms(6) obtain root enc where root: "HashTreeRoot env slashing = Inr root"
    and enc: "Marshal env slashing = Inr enc" and b2: "b2 = moved env status2 root enc b1"
  proof (cases rule: Save_cases)
    case (unchanged root)
    with has1 assms(4) show ?thesis by (simp add: HasAttesterSlashing_def view_def)
  qed auto
  from AttesterSlashings_ordered [OF ord2 wk2, of status1] obtain l1 where
    l1: "AttesterSlashings env status1 b2 = (l1, None)"
    "count_list l1 slashing = length (filter (\<lambda>(k, v). HasPrefix k (encodeStatusType status1 (Attestation env)) \<and>
                                   Unmarshal env v = Inr slashing) b2)" by blast
  from AttesterSlashings_ordered [OF ord2 wk2, of status2] obtain l2 where
    l2: "AttesterSlashings env status2 b2 = (l2, None)"
    "count_list l2 slashing = length (filter (\<lambda>(k, v). HasPrefix k (encodeStatusType status2 (Attestation env)) \<and>
                                   Unmarshal env v = Inr slashing) b2)" by blast
  from l1(2) assms(4) have "count_list l1 slashing = 0"
    unfolding b2 count_in_moved [OF wk1 assms(3) root enc] by simp
  then have "slashing \<notin> set l1" by (simp add: count_list_0_iff)
  moreover from l2(2) have "count_list l2 slashing = 1"
    unfolding b2 count_in_moved [OF wk1 assms(3) root enc] by simp
  ultimately show ?thesis using l1(1) l2(1) by blast
qed

theorem status_move_witness:
  "ordered [(encodeStatusTypeRoot 0 1 (demo_root 6), [6])] \<and>
   well_keyed demo [(encodeStatusTypeRoot 0 1 (demo_root 6), [6])] \<and>
   round_trip demo \<and>
   SaveAttesterSlashing demo 0 5 [(encodeStatusTypeRoot 0 1 (demo_root 6), [6])] =
     (None, [(encodeStatusTypeRoot 0 1 (demo_root 5), [5]), (encodeStatusTypeRoot 0 1 (demo_root 6), [6])]) \<and>
   SaveAttesterSlashing demo 2 5
     [(encodeStatusTypeRoot 0 1 (demo_root 5), [5]), (encodeStatusTypeRoot 0 1 (demo_root 6), [6])] =
     (None, [(encodeStatusTypeRoot 0 1 (demo_root 6), [6]), (encodeStatusTypeRoot 2 1 (demo_root 5), [5])]) \<and>
   (\<exists>l1 l2.
      AttesterSlashings demo 0
        [(encodeStatusTypeRoot 0 1 (demo_root 6), [6]), (encodeStatusTypeRoot 2 1 (demo_root 5), [5])] =
        (l1, None) \<and> 5 \<notin> set l1 \<and>
      AttesterSlashings demo 2
        [(encodeStatusTypeRoot 0 1 (demo_root 6), [6]), (encodeStatusTypeRoot 2 1 (demo_root 5), [5])] =
        (l2, None) \<and> count_list l2 5 = 1) \<and>
   AttesterSlashings demo 0
     [(encodeStatusTypeRoot 0 1 (demo_root 6), [6]), (encodeStatusTypeRoot 2 1 (demo_root 5), [5])] =
     ([6], None) \<and>
   AttesterSlashings demo 2
     [(encodeStatusTypeRoot 0 1 (demo_root 6), [6]), (encodeStatusTypeRoot 2 1 (demo_root 5), [5])] =
     ([5], None)"
proof -
  have ne: "(0 :: byte) \<noteq> 2" by simp
  note h = ordered_single well_keyed_demo_single round_trip_demo ne Save_demo_new Save_demo_change
  from status_move [OF h] h List_demo show ?thesis by blast
qed

text \<open>
  Claim C4. Right after a save of a slashing with a status that returned no error,
  \<^verbatim>\<open>HasAttesterSlashing\<close> of that slashing returns found, exactly that status (the first
  byte of the matching key), and no error.
\<close>

theorem HasAttesterSlashing_after_Save:
  "SaveAttesterSlashing env status slashing b = (None, b') \<Longrightarrow>
   HasAttesterSlashing env slashing b' = (True, status, None)"
  by (rule Has_after_Save)

theorem HasAttesterSlashing_after_Save_witness:
  "SaveAttesterSlashing demo 2 5 [] = (None, [([2, 1] @ replicate 32 5, [5])]) \<and>
   HasAttesterSlashing demo 5 [([2, 1] @ replicate 32 5, [5])] = (True, 2, None)"
proof -
  have h: "SaveAttesterSlashing demo 2 5 [] = (None, [([2, 1] @ replicate 32 5, [5])])"
    by (rule Save_demo_empty)
  from HasAttesterSlashing_after_Save [OF h] h show ?thesis by simp
qed

text \<open>
  Claim C5. When the root of a slashing can be computed and no key of the bucket ends
  with it, \<^verbatim>\<open>DeleteAttesterSlashing\<close> returns no error and leaves the bucket as it was.
\<close>

theorem DeleteAttesterSlashing_nothing_stored:
  assumes "HashTreeRoot env slashing = Inr root"
    and "\<forall>(k, v) \<in> set b. \<not> HasSuffix k (root_bytes root)"
  shows "DeleteAttesterSlashing env slashing b = (None, b)"
  using assms
  by (simp add: DeleteAttesterSlashing_def update_def foreach_delete_untouched)

theorem DeleteAttesterSlashing_nothing_stored_witness:
  "HashTreeRoot demo 5 = Inr (demo_root 5) \<and>
   \<not> HasSuffix (encodeStatusTypeRoot 0 1 (demo_root 6)) (root_bytes (demo_root 5)) \<and>
   DeleteAttesterSlashing demo 5 [(encodeStatusTypeRoot 0 1 (demo_root 6), [6])] =
     (None, [(encodeStatusTypeRoot 0 1 (demo_root 6), [6])])"
proof -
  have h1: "HashTreeRoot demo 5 = Inr (demo_root 5)" by (simp add: demo_simps)
  have h2: "\<forall>(k, v) \<in> set ([(encodeStatusTypeRoot 0 1 (demo_root 6), [6])] :: bucket).
              \<not> HasSuffix k (root_bytes (demo_root 5))"
    by (simp add: HasSuffix_key demo_root_distinct)
  from h2 have h3: "\<not> HasSuffix (encodeStatusTypeRoot 0 1 (demo_root 6)) (root_bytes (demo_root 5))"
    by simp
  from DeleteAttesterSlashing_nothing_stored [OF h1 h2] h1 h3 show ?thesis by (intro conjI)
qed

text \<open>
  Claim C6 says that after a save of a slashing followed by \<^verbatim>\<open>DeleteAttesterSlashing\<close> of
  it, \<^verbatim>\<open>HasAttesterSlashing\<close> returns found = false and the list of the status no longer
  contains the slashing. With an engine whose delete fails, the save of slashing 5 with
  status 0 returns no error, \<^verbatim>\<open>DeleteAttesterSlashing\<close> returns no error and leaves the
  bucket as it was, \<^verbatim>\<open>HasAttesterSlashing\<close> still returns found = true with status 0, and
  \<^verbatim>\<open>AttesterSlashings\<close> of status 0 still lists the slashing: the error of the delete is
  dropped inside \<^verbatim>\<open>ForEach\<close>, so the caller is told the copies are gone when they are not.
\<close>

theorem full_removal_fails_when_delete_fails:
  "SaveAttesterSlashing demo_faulty 0 5 [(encodeStatusTypeRoot 0 1 (demo_root 6), [6])] =
     (None, [(encodeStatusTypeRoot 0 1 (demo_root 5), [5]), (encodeStatusTypeRoot 0 1 (demo_root 6), [6])]) \<and>
   DeleteAttesterSlashing demo_faulty 5
     [(encodeStatusTypeRoot 0 1 (demo_root 5), [5]), (encodeStatusTypeRoot 0 1 (demo_root 6), [6])] =
     (None, [(encodeStatusTypeRoot 0 1 (demo_root 5), [5]), (encodeStatusTypeRoot 0 1 (demo_root 6), [6])]) \<and>
   HasAttesterSlashing demo_faulty 5
     [(encodeStatusTypeRoot 0 1 (demo_root 5), [5]), (encodeStatusTypeRoot 0 1 (demo_root 6), [6])] =
     (True, 0, None) \<and>
   AttesterSlashings demo_faulty 0
     [(encodeStatusTypeRoot 0 1 (demo_root 5), [5]), (encodeStatusTypeRoot 0 1 (demo_root 6), [6])] =
     ([5, 6], None)"
proof -
  let ?b = "[(encodeStatusTypeRoot 0 1 (demo_root 6), [6 :: byte])]"
  let ?b1 = "[(encodeStatusTypeRoot 0 1 (demo_root 5), [5 :: byte]),
              (encodeStatusTypeRoot 0 1 (demo_root 6), [6 :: byte])]"
  have save: "SaveAttesterSlashing demo_faulty 0 5 ?b = (None, ?b1)"
    by (simp add: SaveAttesterSlashing_def HasAttesterSlashing_def view_def
        updateAttesterSlashingStatus_def update_def Bucket_Put_def demo_faulty_simps
        demo_key_suffix demo_key_less)
  have delete: "DeleteAttesterSlashing demo_faulty 5 ?b1 = (None, ?b1)"
    by (simp add: DeleteAttesterSlashing_def update_def Bucket_Delete_def demo_faulty_simps
        demo_key_suffix)
  have has: "HasAttesterSlashing demo_faulty 5 ?b1 = (True, 0, None)"
    by (simp add: HasAttesterSlashing_def view_def demo_faulty_simps demo_key_suffix case_key)
  have list: "AttesterSlashings demo_faulty 0 ?b1 = ([5, 6], None)"
    by (simp add: AttesterSlashings_unfold Cursor_Seek_def demo_faulty_simps HasPrefix_def
        createAttesterSlashing_def demo_unmarshal_def encodeStatusType_def encodeStatusTypeRoot_def)
  from save delete has list show ?thesis by (intro conjI)
qed

text \<open>
  Claim C7 says that an error of the engine's delete during \<^verbatim>\<open>DeleteAttesterSlashing\<close>
  is returned to the caller. On a bucket holding one record of slashing 5, with an engine
  whose delete fails, the delete of the matching key returns an error, yet
  \<^verbatim>\<open>DeleteAttesterSlashing\<close> returns no error and the record stays;
  \<^verbatim>\<open>DeleteAttesterSlashingWithStatus\<close> on the same input returns the wrapped error.
\<close>

theorem DeleteAttesterSlashing_drops_delete_error:
  "Bucket_Delete demo_faulty (encodeStatusTypeRoot 0 1 (demo_root 5))
     [(encodeStatusTypeRoot 0 1 (demo_root 5), [5])] = Inl (Failure ''delete failed'') \<and>
   DeleteAttesterSlashing demo_faulty 5 [(encodeStatusTypeRoot 0 1 (demo_root 5), [5])] =
     (None, [(encodeStatusTypeRoot 0 1 (demo_root 5), [5])]) \<and>
   DeleteAttesterSlashingWithStatus demo_faulty 0 5 [(encodeStatusTypeRoot 0 1 (demo_root 5), [5])] =
     (Some (Wrap (Failure ''delete failed'')
        ''failed to delete the slashing proof from slashing bucket''),
      [(encodeStatusTypeRoot 0 1 (demo_root 5), [5])])"
  by (simp add: DeleteAttesterSlashing_def DeleteAttesterSlashingWithStatus_def update_def
      Bucket_Delete_def demo_faulty_simps HasSuffix_key)

text \<open>
  Claim C8. When the bucket, in key order, holds under a key with the prefix of a status
  and the attester kind a value that fails to decode, both listings of that status return
  an error: \<^verbatim>\<open>AttesterSlashings\<close> returns it with no slashings, and
  \<^verbatim>\<open>AttestingSlashingsByStatus\<close> returns it too. Neither skips the record and returns
  without error.
\<close>

theorem listing_aborts_on_bad_record:
  assumes "ordered b" and "(k, v) \<in> set b"
    and "HasPrefix k (encodeStatusType status (Attestation env))"
    and "Unmarshal env v = Inl err"
  shows "(\<exists>err'. AttesterSlashings env status b = ([], Some err')) \<and>
         (\<exists>err'. snd (AttestingSlashingsByStatus env status b) = Some err')"
proof -
  let ?pfx = "encodeStatusType status (Attestation env)"
  let ?encoded = "collect_encoded ?pfx (Cursor_Seek ?pfx b)"
  from assms have "v \<in> set ?encoded"
    by (force simp: collect_encoded_Seek)
  from decode_encoded_bad [OF this assms(4)] obtain err' where
    bad: "decode_encoded env ?encoded [] = Inl err'" by blast
  then have "AttesterSlashings env status b = ([], Some err')"
    by (simp add: AttesterSlashings_unfold)
  moreover from scan_decode_Inl [OF bad] have "snd (AttestingSlashingsByStatus env status b) = Some err'"
    by (simp add: AttestingSlashingsByStatus_def view_def)
  ultimately show ?thesis by blast
qed

theorem listing_aborts_on_bad_record_witness:
  "ordered [(encodeStatusTypeRoot 0 1 (demo_root 5), [5]), (encodeStatusTypeRoot 0 1 (demo_root 6), [])] \<and>
   (encodeStatusTypeRoot 0 1 (demo_root 6), []) \<in>
     set ([(encodeStatusTypeRoot 0 1 (demo_root 5), [5]), (encodeStatusTypeRoot 0 1 (demo_root 6), [])] :: bucket) \<and>
   HasPrefix (encodeStatusTypeRoot 0 1 (demo_root 6)) (encodeStatusType 0 (Attestation demo)) \<and>
   Unmarshal demo [] = Inl (Failure ''proto: bad encoding'') \<and>
   (\<exists>err'. AttesterSlashings demo 0
      [(encodeStatusTypeRoot 0 1 (demo_root 5), [5]), (encodeStatusTypeRoot 0 1 (demo_root 6), [])] =
      ([], Some err')) \<and>
   (\<exists>err'. snd (AttestingSlashingsByStatus demo 0
      [(encodeStatusTypeRoot 0 1 (demo_root 5), [5]), (encodeStatusTypeRoot 0 1 (demo_root 6), [])]) =
      Some err')"
proof -
  let ?b = "[(encodeStatusTypeRoot 0 1 (demo_root 5), [5 :: byte]), (encodeStatusTypeRoot 0 1 (demo_root 6), [] :: bytes)]"
  have "replicate 32 (5 :: byte) < replicate 32 6"
    by (rule replicate_less) simp_all
  then have h1: "ordered ?b"
    by (simp add: ordered_def encodeStatusTypeRoot_def root_bytes_demo)
  have h2: "(encodeStatusTypeRoot 0 1 (demo_root 6), []) \<in> set ?b" by simp
  have h3: "HasPrefix (encodeStatusTypeRoot 0 1 (demo_root 6)) (encodeStatusType 0 (Attestation demo))"
    by (simp add: HasPrefix_key demo_simps)
  have h4: "Unmarshal demo [] = Inl (Failure ''proto: bad encoding'')"
    by (simp add: demo_simps demo_unmarshal_def)
  from listing_aborts_on_bad_record [OF h1 h2 h3 h4] h1 h2 h3 h4 show ?thesis by blast
qed

text \<open>
  Claim C9, amended. When the root of the slashing can be computed,
  \<^verbatim>\<open>DeleteAttesterSlashingWithStatus\<close> leaves the bucket as it was or removes the one key
  made of the status, the attester kind and the root, and every record under another key
  stays as it was. When that key is not in the bucket, the bucket is unchanged. The call
  returns no error exactly when the engine's delete of that key returns none; an error
  of the engine's delete is wrapped and returned, with the bucket unchanged, whether the
  key is in the bucket or not, since the code never tests whether the key is present.
\<close>

theorem DeleteAttesterSlashingWithStatus_effect:
  assumes "HashTreeRoot env slashing = Inr root"
    and "DeleteAttesterSlashingWithStatus env status slashing b = (res, b')"
  shows "(b' = b \<or> b' = filter (\<lambda>(k, v). k \<noteq> encodeStatusTypeRoot status (Attestation env) root) b) \<and>
         filter (\<lambda>(k, v). k \<noteq> encodeStatusTypeRoot status (Attestation env) root) b' =
           filter (\<lambda>(k, v). k \<noteq> encodeStatusTypeRoot status (Attestation env) root) b \<and>
         (encodeStatusTypeRoot status (Attestation env) root \<notin> fst ` set b \<longrightarrow> b' = b) \<and>
         (res = None \<longleftrightarrow>
            DeleteFault env (encodeStatusTypeRoot status (Attestation env) root) = None) \<and>
         (\<forall>err. DeleteFault env (encodeStatusTypeRoot status (Attestation env) root) = Some err \<longrightarrow>
            res = Some (Wrap err ''failed to delete the slashing proof from slashing bucket'') \<and>
            b' = b)"
proof -
  let ?key = "encodeStatusTypeRoot status (Attestation env) root"
  have absent: "filter (\<lambda>(k, v). k \<noteq> ?key) b = b" if "?key \<notin> fst ` set b"
    using that by (induction b) auto
  show ?thesis
  proof (cases "DeleteFault env ?key")
    case None
    with assms have "res = None" "b' = filter (\<lambda>(k, v). k \<noteq> ?key) b"
      by (auto simp: DeleteAttesterSlashingWithStatus_def update_def Bucket_Delete_def)
    with absent None show ?thesis by auto
  next
    case (Some err)
    with assms have "b' = b"
      "res = Some (Wrap err ''failed to delete the slashing proof from slashing bucket'')"
      by (auto simp: DeleteAttesterSlashingWithStatus_def update_def Bucket_Delete_def)
    with Some show ?thesis by simp
  qed
qed

theorem DeleteAttesterSlashingWithStatus_effect_witness:
  "HashTreeRoot demo 5 = Inr (demo_root 5) \<and>
   DeleteAttesterSlashingWithStatus demo 0 5
     [(encodeStatusTypeRoot 0 1 (demo_root 5), [5]), (encodeStatusTypeRoot 2 1 (demo_root 5), [5])] =
     (None, [(encodeStatusTypeRoot 2 1 (demo_root 5), [5])]) \<and>
   filter (\<lambda>(k, v). k \<noteq> encodeStatusTypeRoot 0 1 (demo_root 5))
      ([(encodeStatusTypeRoot 2 1 (demo_root 5), [5])] :: bucket) =
   filter (\<lambda>(k, v). k \<noteq> encodeStatusTypeRoot 0 1 (demo_root 5))
      [(encodeStatusTypeRoot 0 1 (demo_root 5), [5]), (encodeStatusTypeRoot 2 1 (demo_root 5), [5])] \<and>
   DeleteFault demo (encodeStatusTypeRoot 0 1 (demo_root 5)) = None \<and>
   encodeStatusTypeRoot 0 1 (demo_root 5) \<notin>
     fst ` set ([(encodeStatusTypeRoot 2 1 (demo_root 5), [5])] :: bucket) \<and>
   DeleteAttesterSlashingWithStatus demo 0 5 [(encodeStatusTypeRoot 2 1 (demo_root 5), [5])] =
     (None, [(encodeStatusTypeRoot 2 1 (demo_root 5), [5])])"
proof -
  let ?b = "[(encodeStatusTypeRoot 0 1 (demo_root 5), [5 :: byte]), (encodeStatusTypeRoot 2 1 (demo_root 5), [5 :: byte])]"
  let ?b' = "[(encodeStatusTypeRoot 2 1 (demo_root 5), [5 :: byte])]"
  have h1: "HashTreeRoot demo 5 = Inr (demo_root 5)" by (simp add: demo_simps)
  have h2: "DeleteAttesterSlashingWithStatus demo 0 5 ?b = (None, ?b')"
    by (simp add: DeleteAttesterSlashingWithStatus_def update_def Bucket_Delete_def demo_simps
        encodeStatusTypeRoot_def)
  have h3: "encodeStatusTypeRoot 0 1 (demo_root 5) \<notin> fst ` set ?b'"
    by (simp add: encodeStatusTypeRoot_def)
  have h4: "DeleteFault demo (encodeStatusTypeRoot 0 1 (demo_root 5)) = None"
    by (simp add: demo_simps)
  obtain res b'' where h5: "DeleteAttesterSlashingWithStatus demo 0 5 ?b' = (res, b'')"
    by (cases "DeleteAttesterSlashingWithStatus demo 0 5 ?b'")
  note present = DeleteAttesterSlashingWithStatus_effect [OF h1 h2, unfolded demo_simps(4)]
  note absent = DeleteAttesterSlashingWithStatus_effect [OF h1 h5, unfolded demo_simps(4)]
  from present have f: "filter (\<lambda>(k, v). k \<noteq> encodeStatusTypeRoot 0 1 (demo_root 5)) ?b' =
      filter (\<lambda>(k, v). k \<noteq> encodeStatusTypeRoot 0 1 (demo_root 5)) ?b"
    by (elim conjE)
  from absent h3 h4 have "b'' = ?b'" and "res = None"
    by blast+
  with h5 have h6: "DeleteAttesterSlashingWithStatus demo 0 5 ?b' = (None, ?b')"
    by (simp only:)
  from h1 h2 f h4 h3 h6 show ?thesis by (intro conjI)
qed

text \<open>
  The claim as stated, that the call returns no error whenever the key is absent, fails:
  with an engine whose delete returns an error, deleting status 0 of slashing 5 from a
  bucket that holds it only under status 2 returns the wrapped error.
\<close>

theorem DeleteAttesterSlashingWithStatus_effect_counterexample:
  "HashTreeRoot demo_faulty 5 = Inr (demo_root 5) \<and>
   encodeStatusTypeRoot 0 (Attestation demo_faulty) (demo_root 5) \<notin>
     fst ` set ([(encodeStatusTypeRoot 2 1 (demo_root 5), [5])] :: bucket) \<and>
   DeleteAttesterSlashingWithStatus demo_faulty 0 5 [(encodeStatusTypeRoot 2 1 (demo_root 5), [5])] =
     (Some (Wrap (Failure ''delete failed'')
        ''failed to delete the slashing proof from slashing bucket''),
      [(encodeStatusTypeRoot 2 1 (demo_root 5), [5])])"
  by (simp add: DeleteAttesterSlashingWithStatus_def update_def Bucket_Delete_def
      demo_faulty_simps encodeStatusTypeRoot_def)

text \<open>
  Claim C10. When every value stored under a key with the prefix of a status and the
  attester kind decodes, \<^verbatim>\<open>AttesterSlashings\<close> and \<^verbatim>\<open>AttestingSlashingsByStatus\<close> of that
  status return the same list of slashings in the same order, and neither returns an
  error.
\<close>

theorem listings_agree:
  assumes "\<forall>(k, v) \<in> set b. HasPrefix k (encodeStatusType status (Attestation env)) \<longrightarrow>
             (\<exists>ps. Unmarshal env v = Inr ps)"
  shows "AttesterSlashings env status b = AttestingSlashingsByStatus env status b \<and>
         snd (AttesterSlashings env status b) = None \<and>
         snd (AttestingSlashingsByStatus env status b) = None"
proof -
  let ?pfx = "encodeStatusType status (Attestation env)"
  let ?encoded = "collect_encoded ?pfx (Cursor_Seek ?pfx b)"
  have "\<forall>enc \<in> set ?encoded. \<exists>ps. Unmarshal env enc = Inr ps"
  proof
    fix enc assume "enc \<in> set ?encoded"
    with collect_encoded_subset [of enc ?pfx] Cursor_Seek_subset [of ?pfx b]
    obtain k where "(k, enc) \<in> set b" "HasPrefix k ?pfx" by blast
    with assms show "\<exists>ps. Unmarshal env enc = Inr ps" by blast
  qed
  from decode_encoded_good [OF this] obtain l where l: "decode_encoded env ?encoded [] = Inr l"
    by blast
  then have "AttesterSlashings env status b = (l, None)"
    by (simp add: AttesterSlashings_unfold)
  moreover from scan_decode_Inr [OF l] have "AttestingSlashingsByStatus env status b = (l, None)"
    by (simp add: AttestingSlashingsByStatus_def view_def)
  ultimately show ?thesis by simp
qed

theorem listings_agree_witness:
  "HasPrefix (encodeStatusTypeRoot 0 1 (demo_root 5)) (encodeStatusType 0 (Attestation demo)) \<and>
   Unmarshal demo [5] = Inr 5 \<and>
   \<not> HasPrefix (encodeStatusTypeRoot 2 1 (demo_root 6)) (encodeStatusType 0 (Attestation demo)) \<and>
   AttesterSlashings demo 0
     [(encodeStatusTypeRoot 0 1 (demo_root 5), [5]), (encodeStatusTypeRoot 2 1 (demo_root 6), [])] =
   AttestingSlashingsByStatus demo 0
     [(encodeStatusTypeRoot 0 1 (demo_root 5), [5]), (encodeStatusTypeRoot 2 1 (demo_root 6), [])] \<and>
   AttesterSlashings demo 0
     [(encodeStatusTypeRoot 0 1 (demo_root 5), [5]), (encodeStatusTypeRoot 2 1 (demo_root 6), [])] =
     ([5], None) \<and>
   AttestingSlashingsByStatus demo 0
     [(encodeStatusTypeRoot 0 1 (demo_root 5), [5]), (encodeStatusTypeRoot 2 1 (demo_root 6), [])] =
     ([5], None)"
proof -
  let ?b = "[(encodeStatusTypeRoot 0 1 (demo_root 5), [5 :: byte]),
             (encodeStatusTypeRoot 2 1 (demo_root 6), [] :: bytes)]"
  have p1: "HasPrefix (encodeStatusTypeRoot 0 1 (demo_root 5)) (encodeStatusType 0 (Attestation demo))"
    by (simp add: HasPrefix_key demo_simps)
  have p2: "Unmarshal demo [5] = Inr 5"
    by (simp add: demo_simps demo_unmarshal_def)
  have p3: "\<not> HasPrefix (encodeStatusTypeRoot 2 1 (demo_root 6)) (encodeStatusType 0 (Attestation demo))"
    by (simp add: HasPrefix_key)
  from p2 p3 have h: "\<forall>(k, v) \<in> set ?b.
      HasPrefix k (encodeStatusType 0 (Attestation demo)) \<longrightarrow> (\<exists>ps. Unmarshal demo v = Inr ps)"
    by simp
  have e: "AttesterSlashings demo 0 ?b = ([5], None)"
    by (simp add: AttesterSlashings_unfold Cursor_Seek_def demo_simps HasPrefix_def
        createAttesterSlashing_def demo_unmarshal_def encodeStatusType_def encodeStatusTypeRoot_def)
  from listings_agree [OF h] have eq: "AttesterSlashings demo 0 ?b = AttestingSlashingsByStatus demo 0 ?b"
    by (rule conjunct1)
  with e have e': "AttestingSlashingsByStatus demo 0 ?b = ([5], None)" by (simp only:)
  from p1 p2 p3 eq e e' show ?thesis by (intro conjI)
qed

end
